theory Spec2Isabelle
  imports Main "HOL-Library.Word" "HOL-Library.Sublist"
begin

section \<open>The audio queue\<close>

text \<open>
  \<^verbatim>\<open>self.buff = queue.Queue()\<close> is an unbounded FIFO of Python objects. The callback
  puts \<^verbatim>\<open>bytes\<close> values into it and the generator tests what it takes out against
  \<^verbatim>\<open>None\<close>, so an element is a byte string or \<^verbatim>\<open>None\<close>: \<open>Some b\<close> is the chunk
  \<open>b\<close>, \<open>None\<close> is Python's \<^verbatim>\<open>None\<close>, the end-of-stream marker.
  The queue is the list of its elements, oldest first.
\<close>

type_synonym bytes = "8 word list"
type_synonym item = "bytes option"
type_synonym queue = "item list"

text \<open>\<^verbatim>\<open>Queue.put(x)\<close> on an unbounded queue: appends at the tail, never waits.\<close>

definition put :: "queue \<Rightarrow> item \<Rightarrow> queue" where
  "put q x = q @ [x]"

text \<open>
  \<^verbatim>\<open>Queue.get()\<close>, blocking and without timeout: takes the head. On an empty queue the
  calling thread is suspended until another thread puts; that is the value \<open>None\<close>.
\<close>

fun get :: "queue \<Rightarrow> (item \<times> queue) option" where
  "get [] = None"
| "get (x # q) = Some (x, q)"

text \<open>
  \<^verbatim>\<open>Queue.get(block=False)\<close>: takes the head, and on an empty queue raises
  \<^verbatim>\<open>queue.Empty\<close> at once; the exception is the value \<open>Inl Empty\<close>.
\<close>

datatype empty = Empty

fun get_nowait :: "queue \<Rightarrow> empty + item \<times> queue" where
  "get_nowait [] = Inl Empty"
| "get_nowait (x # q) = Inr (x, q)"

text \<open>\<open>n\<close> successive blocking gets by one thread; \<open>None\<close> when one of them is suspended.\<close>

fun gets :: "nat \<Rightarrow> queue \<Rightarrow> (item list \<times> queue) option" where
  "gets 0 q = Some ([], q)"
| "gets (Suc n) q =
     (case get q of
        None \<Rightarrow> None
      | Some (x, q') \<Rightarrow>
          (case gets n q' of
             None \<Rightarrow> None
           | Some (xs, q'') \<Rightarrow> Some (x # xs, q'')))"

section \<open>MicrophoneStream\<close>

text \<open>
  \<open>input_stream\<close> is \<open>None\<close> after \<^verbatim>\<open>__init__\<close>; \<^verbatim>\<open>open_stream\<close> stores a new
  \<^verbatim>\<open>sd.RawInputStream\<close>, whose life is \<open>Created\<close>, \<open>Started\<close> (by \<^verbatim>\<open>__enter__\<close>),
  \<open>Closed\<close> (by \<^verbatim>\<open>__exit__\<close>). The driver calls the callback only while the stream is
  started.
\<close>

datatype stream = Created | Started | Closed

record MicrophoneStream =
  rate :: nat
  chunk :: nat
  buff :: queue
  input_stream :: "stream option"

definition init :: "nat \<Rightarrow> nat \<Rightarrow> MicrophoneStream" where
  "init r c = \<lparr>rate = r, chunk = c, buff = [], input_stream = None\<rparr>"

definition open_stream :: "MicrophoneStream \<Rightarrow> MicrophoneStream" where
  "open_stream ms = ms\<lparr>input_stream := Some Created\<rparr>"

text \<open>
  \<^verbatim>\<open>callback(self, indata, frames, time, status)\<close>: a status that is set (non-zero flags)
  is printed to stderr, and in either case \<^verbatim>\<open>bytes(indata)\<close> is put into the queue.
  \<^verbatim>\<open>frames\<close> and \<^verbatim>\<open>time\<close> are not read. The printed line is no part of the object, so
  the status does not show in the result.
\<close>

definition callback :: "MicrophoneStream \<Rightarrow> bytes \<Rightarrow> nat \<Rightarrow> MicrophoneStream" where
  "callback ms indata status = ms\<lparr>buff := put (buff ms) (Some indata)\<rparr>"

subsection \<open>The generator\<close>

text \<open>
  A generator object is a suspended frame. Between two queue operations the frame of
  \<^verbatim>\<open>generator\<close> is in one of three places: before the blocking \<^verbatim>\<open>get\<close> of the outer
  loop (\<open>Outer\<close>: a fresh generator, and one resumed after \<^verbatim>\<open>yield\<close>, since the
  \<^verbatim>\<open>yield\<close> is the last statement of the outer loop's body), before the non-blocking
  \<^verbatim>\<open>get\<close> of the inner loop with the list \<^verbatim>\<open>data\<close> (\<open>Inner data\<close>), or finished
  (\<open>Finished\<close>: a \<^verbatim>\<open>return\<close> was executed).

  \<open>generator_step\<close> runs the frame through its next queue operation, which is atomic
  (the queue holds a lock); pushes of the driver thread fall between such steps. It
  tells what the consumer sees: \<open>Blocked\<close> (suspended in \<^verbatim>\<open>get\<close>), \<open>Running\<close> (still
  inside the same \<^verbatim>\<open>next\<close> call), \<open>Yield b\<close>, or \<open>StopIteration\<close>.
\<close>

datatype frame = Outer | Inner "bytes list" | Finished

datatype signal = Blocked | Running | Yield bytes | StopIteration

fun generator_step :: "frame \<Rightarrow> queue \<Rightarrow> signal \<times> frame \<times> queue" where
  "generator_step Outer q =
     (case get q of
        None \<Rightarrow> (Blocked, Outer, q)
      | Some (None, q') \<Rightarrow> (StopIteration, Finished, q')
      | Some (Some c, q') \<Rightarrow> (Running, Inner [c], q'))"
| "generator_step (Inner data) q =
     (case get_nowait q of
        Inl Empty \<Rightarrow> (Yield (concat data), Outer, q)
      | Inr (None, q') \<Rightarrow> (StopIteration, Finished, q')
      | Inr (Some c, q') \<Rightarrow> (Running, Inner (data @ [c]), q'))"
| "generator_step Finished q = (StopIteration, Finished, q)"

text \<open>
  One \<^verbatim>\<open>next()\<close> on the generator while no other thread touches the queue: steps until
  the consumer sees something. Every step that keeps running has taken an element, so
  the call ends.
\<close>

function generator_next :: "frame \<Rightarrow> queue \<Rightarrow> signal \<times> frame \<times> queue" where
  "generator_next f q =
     (let (s, f', q') = generator_step f q
      in if s = Running then generator_next f' q' else (s, f', q'))"
  by pat_completeness auto
termination
proof (relation "measure (\<lambda>(f, q). length q)")
  show "wf (measure (\<lambda>(f, q). length q))"
    by simp
next
  fix f :: frame and q :: queue and x xa y xb ya
  assume "x = generator_step f q" "(xa, y) = x" "(xb, ya) = y" "xa = Running"
  then have "generator_step f q = (Running, xb, ya)"
    by simp
  then have "length ya < length q"
    by (cases f; cases q) (auto split: option.splits)
  then show "((xb, ya), f, q) \<in> measure (\<lambda>(f, q). length q)"
    by simp
qed

text \<open>
  The generator between two threads: the producer pushes (\<open>Push x\<close>, a chunk or the
  marker) and the consumer, which keeps pulling, advances the generator by one queue
  operation (\<open>Step\<close>), in the order the schedule gives. The result lists the buffers
  yielded, in order, with the frame and the queue at the end.
\<close>

datatype action = Push item | Step

fun run :: "action list \<Rightarrow> frame \<Rightarrow> queue \<Rightarrow> bytes list \<times> frame \<times> queue" where
  "run [] f q = ([], f, q)"
| "run (Push x # acts) f q = run acts f (put q x)"
| "run (Step # acts) f q =
     (let (s, f', q') = generator_step f q;
          (ys, f'', q'') = run acts f' q'
      in ((case s of Yield b \<Rightarrow> b # ys | _ \<Rightarrow> ys), f'', q''))"

text \<open>What a schedule pushes, in order.\<close>

fun pushed :: "action list \<Rightarrow> item list" where
  "pushed [] = []"
| "pushed (Push x # acts) = x # pushed acts"
| "pushed (Step # acts) = pushed acts"

section \<open>get\_asr\_result\<close>

text \<open>
  A Python \<^verbatim>\<open>str\<close> is the list of its code points. \<^verbatim>\<open>isspace\<close> holds of the
  characters at which \<^verbatim>\<open>str.split()\<close>, called without a separator, splits.
\<close>

type_synonym str = "nat list"

definition isspace :: "nat \<Rightarrow> bool" where
  "isspace c =
     (c \<in> set [9, 10, 11, 12, 13, 28, 29, 30, 31, 32, 133, 160, 5760,
                8192, 8193, 8194, 8195, 8196, 8197, 8198, 8199, 8200, 8201, 8202,
                8232, 8233, 8239, 8287, 12288])"

text \<open>
  \<^verbatim>\<open>s.split()\<close>: the maximal runs of non-space characters; \<open>w\<close> is the word being
  read.
\<close>

fun split_from :: "str \<Rightarrow> str \<Rightarrow> str list" where
  "split_from w [] = (if w = [] then [] else [w])"
| "split_from w (c # cs) =
     (if isspace c then (if w = [] then [] else [w]) @ split_from [] cs
      else split_from (w @ [c]) cs)"

definition split :: "str \<Rightarrow> str list" where
  "split s = split_from [] s"

text \<open>
  The recognizer is an external object with a state of its own, of some type \<open>'r\<close>.
  Its two methods are parameters: \<^verbatim>\<open>AcceptWaveform(content)\<close> answers whether an
  utterance is complete, or raises; \<^verbatim>\<open>Result()\<close> stands for line 83 and the
  subscript of line 84, that is for the \<^verbatim>\<open>"text"\<close> member of the JSON document the
  recognizer returns, or for the exception that the call, the parsing or the subscript
  raises. Both may change the recognizer's state; a call that raises hands no new state
  back, and the state is kept as it was.
\<close>

datatype exn =
  UnknownValueError | RequestError | WaitTimeoutError | UnboundLocalError | OtherError

record 'r KaldiRecognizer =
  AcceptWaveform :: "'r \<Rightarrow> bytes \<Rightarrow> exn + bool \<times> 'r"
  Result :: "'r \<Rightarrow> exn + str \<times> 'r"

text \<open>The named tuple \<^verbatim>\<open>VoskStreamingASR(microphone_stream, recognizer)\<close>.\<close>

record 'r VoskStreamingASR =
  microphone_stream :: MicrophoneStream
  recognizer :: 'r

text \<open>
  \<^verbatim>\<open>with mic_stream.input_stream:\<close> starts the stream on entry and stops and closes it
  when the block is left, by \<^verbatim>\<open>return\<close> or by an exception. Neither touches the
  queue: the stream knows the object only through the callback.
\<close>

definition enter :: "MicrophoneStream \<Rightarrow> MicrophoneStream" where
  "enter ms = ms\<lparr>input_stream := Some Started\<rparr>"

definition exit :: "MicrophoneStream \<Rightarrow> MicrophoneStream" where
  "exit ms = ms\<lparr>input_stream := Some Closed\<rparr>"

text \<open>
  The driver thread: it calls the callback with a block while the stream is started,
  and not before the start or after the close.
\<close>

definition deliver :: "MicrophoneStream \<Rightarrow> bytes \<Rightarrow> nat \<Rightarrow> MicrophoneStream" where
  "deliver ms indata status =
     (if input_stream ms = Some Started then callback ms indata status else ms)"

text \<open>
  The consumer thread inside \<^verbatim>\<open>get_asr_result\<close>, from the entry into the \<^verbatim>\<open>with\<close>
  block on. It is at one of these places:
  \<^item> \<open>Pulling f\<close>: inside \<^verbatim>\<open>next\<close> on the generator, whose frame is \<open>f\<close>;
  \<^item> \<open>Accepting f content\<close>: the generator has yielded \<open>content\<close> and is suspended with
    frame \<open>f\<close>; the call of \<^verbatim>\<open>AcceptWaveform\<close> in line 82 comes next;
  \<^item> \<open>Resulting\<close>: \<^verbatim>\<open>AcceptWaveform\<close> has answered true; lines 83 to 85 come next;
  \<^item> \<open>Leaving out\<close>: a \<^verbatim>\<open>return\<close> (line 86, or line 87 after the generator has ended)
    or an exception is on its way out of the block; the stream's \<^verbatim>\<open>__exit__\<close> comes
    next;
  \<^item> \<open>Left out\<close>: the block is left, the stream is closed, and \<^verbatim>\<open>get_asr_result\<close>
    ends with \<open>out\<close>.
  \<open>consumer_step\<close> is one move of the thread: one queue operation of the generator, one
  call on the recognizer, or the close. The driver thread can deliver blocks between any
  two moves, also while the recognizer works and up to the close.
\<close>

datatype outcome = Return "str option" | Raise exn | Pending

datatype place =
  Pulling frame | Accepting frame bytes | Resulting | Leaving outcome | Left outcome

fun consumer_step ::
  "'r KaldiRecognizer \<Rightarrow> place \<Rightarrow> 'r VoskStreamingASR \<Rightarrow> place \<times> 'r VoskStreamingASR" where
  "consumer_step K (Pulling f) vosk_asr =
     (let mic_stream = microphone_stream vosk_asr;
          (s, f', q') = generator_step f (buff mic_stream);
          vosk_asr' = vosk_asr\<lparr>microphone_stream := mic_stream\<lparr>buff := q'\<rparr>\<rparr>
      in case s of
           Blocked \<Rightarrow> (Pulling f', vosk_asr')
         | Running \<Rightarrow> (Pulling f', vosk_asr')
         | StopIteration \<Rightarrow> (Leaving (Return None), vosk_asr')
         | Yield content \<Rightarrow> (Accepting f' content, vosk_asr'))"
| "consumer_step K (Accepting f content) vosk_asr =
     (case AcceptWaveform K (recognizer vosk_asr) content of
        Inl e \<Rightarrow> (Leaving (Raise e), vosk_asr)
      | Inr (accepted, r') \<Rightarrow>
          (if accepted then Resulting else Pulling f, vosk_asr\<lparr>recognizer := r'\<rparr>))"
| "consumer_step K Resulting vosk_asr =
     (case Result K (recognizer vosk_asr) of
        Inl e \<Rightarrow> (Leaving (Raise e), vosk_asr)
      | Inr (text, r') \<Rightarrow>
          (let recog_text = concat (split text)
           in (Leaving (Return (Some recog_text)), vosk_asr\<lparr>recognizer := r'\<rparr>)))"
| "consumer_step K (Leaving out) vosk_asr =
     (Left out, vosk_asr\<lparr>microphone_stream := exit (microphone_stream vosk_asr)\<rparr>)"
| "consumer_step K (Left out) vosk_asr = (Left out, vosk_asr)"

text \<open>
  The two threads under a schedule: \<open>Block indata status\<close> is a block of the driver,
  \<open>Tick\<close> a move of the consumer. Every event of the schedule is applied, in order.
\<close>

datatype event = Block bytes nat | Tick

fun with_input_stream ::
  "'r KaldiRecognizer \<Rightarrow> place \<Rightarrow> 'r VoskStreamingASR \<Rightarrow> event list
   \<Rightarrow> place \<times> 'r VoskStreamingASR" where
  "with_input_stream K p vosk_asr [] = (p, vosk_asr)"
| "with_input_stream K p vosk_asr (Block indata status # es) =
     with_input_stream K p
       (vosk_asr\<lparr>microphone_stream := deliver (microphone_stream vosk_asr) indata status\<rparr>) es"
| "with_input_stream K p vosk_asr (Tick # es) =
     (let (p', vosk_asr') = consumer_step K p vosk_asr
      in with_input_stream K p' vosk_asr' es)"

text \<open>
  \<^verbatim>\<open>get_asr_result\<close>: the stream is opened and started, the generator is new. A session
  that has not left the block when its schedule ends is \<open>Pending\<close>: it waits in
  \<^verbatim>\<open>get\<close>, or is somewhere on its way.
\<close>

definition get_asr_result ::
  "'r KaldiRecognizer \<Rightarrow> 'r VoskStreamingASR \<Rightarrow> event list \<Rightarrow> outcome \<times> 'r VoskStreamingASR" where
  "get_asr_result K vosk_asr es =
     (let mic_stream = enter (open_stream (microphone_stream vosk_asr));
          (p, vosk_asr') =
             with_input_stream K (Pulling Outer) (vosk_asr\<lparr>microphone_stream := mic_stream\<rparr>) es
      in ((case p of Left out \<Rightarrow> out | _ \<Rightarrow> Pending), vosk_asr'))"

section \<open>main\<close>

text \<open>
  The stop phrase is the literal of line 125, three code points (U+7D42, U+308F,
  U+308A). What the loop prints is kept as a list of lines: the start banner, the
  result line with the value formatted into it, \<^verbatim>\<open>Bye\<close>, the end banner.
\<close>

definition stop_phrase :: str where
  "stop_phrase = [0x7D42, 0x308F, 0x308A]"

datatype line = Start_banner | Result_line "str option" | Bye | End_banner

datatype ending = Exited | Uncaught exn | Still_running

text \<open>
  The \<^verbatim>\<open>try\<close> statement of lines 115 to 122. The local variable \<^verbatim>\<open>recog_result\<close> is
  unbound (\<open>None\<close>) until the first assignment; a handler that passes leaves it as it
  was; an exception without a handler leaves \<^verbatim>\<open>main\<close>.
\<close>

definition try_get_asr_result :: "str option option \<Rightarrow> outcome \<Rightarrow> ending + str option option" where
  "try_get_asr_result recog_result out =
     (case out of
        Return t \<Rightarrow> Inr (Some t)
      | Raise e \<Rightarrow>
          if e = UnknownValueError then Inr recog_result
          else if e = RequestError then Inr recog_result
          else if e = WaitTimeoutError then Inr recog_result
          else Inl (Uncaught e)
      | Pending \<Rightarrow> Inl Still_running)"

text \<open>
  The \<^verbatim>\<open>while True\<close> loop, one schedule per utterance. \<^verbatim>\<open>sr.Microphone()\<close> and
  \<^verbatim>\<open>adjust_for_ambient_noise\<close> belong to another library and touch nothing of the
  state here; they are taken to succeed. Reading the unbound \<^verbatim>\<open>recog_result\<close> in line
  124 raises \<^verbatim>\<open>UnboundLocalError\<close>, which nothing catches.
\<close>

fun main_loop ::
  "'r KaldiRecognizer \<Rightarrow> str option option \<Rightarrow> 'r VoskStreamingASR \<Rightarrow> event list list
   \<Rightarrow> line list \<times> ending" where
  "main_loop K recog_result vosk_asr [] = ([], Still_running)"
| "main_loop K recog_result vosk_asr (es # ess) =
     (let (out, vosk_asr') = get_asr_result K vosk_asr es
      in case try_get_asr_result recog_result out of
           Inl e \<Rightarrow> ([Start_banner], e)
         | Inr None \<Rightarrow> ([Start_banner], Uncaught UnboundLocalError)
         | Inr (Some r) \<Rightarrow>
             if r = Some stop_phrase
             then ([Start_banner, Result_line r, Bye, End_banner], Exited)
             else (let (ls, e) = main_loop K (Some r) vosk_asr' ess
                   in (Start_banner # Result_line r # ls, e)))"

definition main ::
  "'r KaldiRecognizer \<Rightarrow> 'r \<Rightarrow> nat \<Rightarrow> nat \<Rightarrow> event list list \<Rightarrow> line list \<times> ending" where
  "main K r sample_rate chunk_size ess =
     main_loop K None \<lparr>microphone_stream = init sample_rate chunk_size, recognizer = r\<rparr> ess"

section \<open>Auxiliary definitions for the statements\<close>

text \<open>
  \<open>grouped ys xs\<close>: the buffers \<open>ys\<close> are the joins of non-empty groups of chunks, and
  these chunks, in order, are the first elements of \<open>xs\<close>.
\<close>

definition grouped :: "bytes list \<Rightarrow> item list \<Rightarrow> bool" where
  "grouped ys xs =
     (\<exists>gs. ys = map concat gs \<and> [] \<notin> set gs \<and> prefix (map Some (concat gs)) xs)"

text \<open>
  Three properties of a place of the consumer: \<open>unmarked\<close>, no end of the generator
  has been seen; \<open>stream_at\<close>, the state of the stream there; \<open>settled\<close>, an outcome
  on its way out is a return or an exception.
\<close>

fun unmarked :: "place \<Rightarrow> bool" where
  "unmarked (Pulling f) = (f \<noteq> Finished)"
| "unmarked (Accepting f content) = (f \<noteq> Finished)"
| "unmarked Resulting = True"
| "unmarked (Leaving out) = (out \<noteq> Return None)"
| "unmarked (Left out) = (out \<noteq> Return None)"

fun stream_at :: "place \<Rightarrow> stream" where
  "stream_at (Left out) = Closed"
| "stream_at p = Started"

fun settled :: "place \<Rightarrow> bool" where
  "settled (Leaving out) = (out \<noteq> Pending)"
| "settled (Left out) = (out \<noteq> Pending)"
| "settled p = True"

text \<open>The outcomes of successive sessions, the state handed from each to the next.\<close>

fun sessions :: "'r KaldiRecognizer \<Rightarrow> 'r VoskStreamingASR \<Rightarrow> event list list \<Rightarrow> outcome list" where
  "sessions K vosk_asr [] = []"
| "sessions K vosk_asr (es # ess) =
     (let (out, vosk_asr') = get_asr_result K vosk_asr es in out # sessions K vosk_asr' ess)"

text \<open>
  A recognizer for concrete runs: its state is a script, one entry per call of
  \<^verbatim>\<open>AcceptWaveform\<close> (raise, reject, or accept with a text), and the text that
  \<^verbatim>\<open>Result\<close> will hand out.
\<close>

type_synonym script = "(exn + str option) list \<times> str"

definition scripted :: "script KaldiRecognizer" where
  "scripted =
     \<lparr>AcceptWaveform = (\<lambda>(sc, t) content.
        case sc of
          [] \<Rightarrow> Inr (False, ([], t))
        | Inl e # sc' \<Rightarrow> Inl e
        | Inr None # sc' \<Rightarrow> Inr (False, (sc', t))
        | Inr (Some t') # sc' \<Rightarrow> Inr (True, (sc', t'))),
      Result = (\<lambda>(sc, t). Inr (t, (sc, [])))\<rparr>"

definition fresh :: "script \<Rightarrow> script VoskStreamingASR" where
  "fresh sc = \<lparr>microphone_stream = init 16000 8000, recognizer = sc\<rparr>"

section \<open>The queue is first in, first out\<close>

lemma gets_all: "gets (length xs) (xs @ q) = Some (xs, q)"
  by (induction xs) simp_all

lemma buff_callbacks:
  "buff (foldl (\<lambda>ms (indata, status). callback ms indata status) ms blocks)
     = buff ms @ map (Some \<circ> fst) blocks"
  by (induction blocks arbitrary: ms) (auto simp: callback_def put_def)

text \<open>
  Claim C5. The callback pushes the blocks \<open>P1..Pn\<close> into the queue of a new
  \<open>MicrophoneStream\<close>, then the end-of-stream marker is pushed: \<open>n + 1\<close> successive
  blocking pops all return, and they return \<open>P1..Pn\<close> in push order and then the
  marker, leaving the queue empty.
\<close>

theorem gets_fifo:
  "gets (Suc (length blocks))
     (put (buff (foldl (\<lambda>ms (indata, status). callback ms indata status) (init r c) blocks)) None)
   = Some (map (Some \<circ> fst) blocks @ [None], [])"
proof -
  let ?xs = "map (Some \<circ> fst) blocks @ [None]"
  have "gets (length ?xs) (?xs @ []) = Some (?xs, [])"
    by (rule gets_all)
  then show ?thesis
    by (simp add: buff_callbacks put_def init_def)
qed

text \<open>
  Claim C8. The non-blocking pop raises \<open>Empty\<close> exactly on the queue with no
  elements, whatever pushes and pops led to it. In the generator's inner loop this ends
  the accumulation and yields at once, and the only operation of the generator that
  suspends the caller is the blocking pop of the outer loop on an empty queue.
\<close>

theorem get_nowait_never_suspends:
  "(get_nowait q = Inl Empty) = (q = []) \<and>
   generator_step (Inner data) [] = (Yield (concat data), Outer, []) \<and>
   (fst (generator_step f q) = Blocked) = (f = Outer \<and> q = [])"
  by (cases f; cases q) (auto split: option.splits)

section \<open>One pull on the generator\<close>

lemma generator_next_Outer_Nil: "generator_next Outer [] = (Blocked, Outer, [])"
  by simp

lemma generator_next_Outer_None: "generator_next Outer (None # q) = (StopIteration, Finished, q)"
  by simp

lemma generator_next_Outer_Some: "generator_next Outer (Some c # q) = generator_next (Inner [c]) q"
  by simp

lemma generator_next_Inner_Nil: "generator_next (Inner data) [] = (Yield (concat data), Outer, [])"
  by simp

lemma generator_next_Inner_None:
  "generator_next (Inner data) (None # q) = (StopIteration, Finished, q)"
  by simp

lemma generator_next_Inner_Some:
  "generator_next (Inner data) (Some c # q) = generator_next (Inner (data @ [c])) q"
  by simp

lemma generator_next_Finished: "generator_next Finished q = (StopIteration, Finished, q)"
  by simp

lemmas generator_next_eqs =
  generator_next_Outer_Nil generator_next_Outer_None generator_next_Outer_Some
  generator_next_Inner_Nil generator_next_Inner_None generator_next_Inner_Some
  generator_next_Finished

declare generator_next.simps [simp del]

lemma drain_chunks:
  "generator_next (Inner data) (map Some cs) = (Yield (concat (data @ cs)), Outer, [])"
  by (induction cs arbitrary: data) (simp_all add: generator_next_eqs)

lemma drain_marker:
  "generator_next (Inner data) (map Some cs @ None # q) = (StopIteration, Finished, q)"
  by (induction cs arbitrary: data) (simp_all add: generator_next_eqs)

text \<open>
  A pull on a queue of chunks only takes them all and yields their join.
\<close>

lemma generator_next_chunks:
  "generator_next Outer (Some c # map Some cs) = (Yield (concat (c # cs)), Outer, [])"
  by (simp add: generator_next_eqs drain_chunks)

text \<open>
  Claim C1 says that when the non-blocking pop returns the end-of-stream marker, the
  accumulation is yielded before the sequence ends. The generator does not do so: with
  the chunks \<open>c, cs\<close> queued in front of the marker, one pull takes all of them and the
  marker out of the queue and ends with \<open>StopIteration\<close>; the consumer never sees the
  bytes of \<open>c\<close> and \<open>cs\<close>.
\<close>

theorem generator_marker_in_drain_discards:
  "generator_next Outer (Some c # map Some cs @ None # q) = (StopIteration, Finished, q)"
  by (simp add: generator_next_eqs drain_marker)

text \<open>
  Claim C6. Two blocks \<open>b1\<close>, \<open>b2\<close> that the callback put into the queue before the
  first pull come out of that pull as the one buffer \<open>b1 @ b2\<close>; the queue is empty
  afterwards and the generator is ready for the next pull. Step by step: the pull is
  three queue operations, and going on pulling yields no second buffer.
\<close>

theorem generator_merges_queued_chunks:
  "generator_next Outer (buff (callback (callback (init r c) b1 s1) b2 s2))
     = (Yield (b1 @ b2), Outer, []) \<and>
   run [Step, Step, Step, Step, Step] Outer (buff (callback (callback (init r c) b1 s1) b2 s2))
     = ([b1 @ b2], Outer, [])"
  by (simp add: callback_def init_def put_def generator_next_eqs)

section \<open>The generator under a schedule\<close>

text \<open>
  Claim C7. \<open>b1\<close> is pushed and consumed by one pull (the blocking pop, then the
  non-blocking pop that finds the queue empty), and only then \<open>b2\<close> is pushed and
  pulled: the generator yields two buffers, \<open>b1\<close> and then \<open>b2\<close>.
\<close>

theorem generator_separate_pulls:
  "run [Push (Some b1), Step, Step, Push (Some b2), Step, Step] Outer [] = ([b1, b2], Outer, [])"
  by (simp add: put_def)

text \<open>
  Claim C3 says that the buffers yielded before the generator terminates add up to the
  chunks pushed, whatever the interleaving. Because of the early return of line 62
  (see claim C1) they do not: the same pushes, the chunk \<open>[7]\<close> and then the marker,
  give no buffer at all when both arrive before the pull, and the buffer \<open>[7]\<close> when
  the chunk is pulled before the marker arrives. In both runs the generator has
  terminated and the queue is empty.
\<close>

theorem run_marker_loses_bytes:
  "run [Push (Some [7]), Push None, Step, Step] Outer [] = ([], Finished, []) \<and>
   run [Push (Some [7]), Step, Step, Push None, Step] Outer [] = ([[7]], Finished, [])"
  by (simp add: put_def)

lemma run_Finished: "run acts Finished q = ([], Finished, q @ pushed acts)"
  by (induction acts arbitrary: q rule: pushed.induct) (simp_all add: put_def)

lemma grouped_Nil: "grouped [] xs"
  unfolding grouped_def by (rule exI [of _ "[]"]) simp

lemma run_groups:
  "(case f of
      Outer \<Rightarrow> grouped (fst (run acts f q)) (q @ pushed acts)
    | Inner data \<Rightarrow>
        fst (run acts f q) = [] \<or>
        (\<exists>g ys. fst (run acts f q) = concat (data @ g) # ys \<and>
                 prefix (map Some g) (q @ pushed acts) \<and>
                 grouped ys (drop (length g) (q @ pushed acts)))
    | Finished \<Rightarrow> fst (run acts f q) = [])"
proof (induction acts arbitrary: f q)
  case Nil
  show ?case by (cases f) (simp_all add: grouped_Nil)
next
  case (Cons a acts)
  show ?case
  proof (cases a)
    case (Push x)
    with Cons [of f "put q x"] show ?thesis
      by (cases f) (simp_all add: put_def)
  next
    case Step
    show ?thesis
    proof (cases f)
      case Finished
      then show ?thesis by (simp add: run_Finished)
    next
      case Outer
      show ?thesis
      proof (cases q)
        case Nil
        with Cons [of Outer "[]"] Outer Step show ?thesis
          by (simp add: split_beta)
      next
        case (Cons x q')
        show ?thesis
        proof (cases x)
          case None
          with Outer Step Cons show ?thesis
            by (simp add: split_beta run_Finished grouped_Nil)
        next
          case (Some c)
          from Cons.IH [of "Inner [c]" q']
          have "fst (run acts (Inner [c]) q') = [] \<or>
            (\<exists>g ys. fst (run acts (Inner [c]) q') = concat ([c] @ g) # ys \<and>
                 prefix (map Some g) (q' @ pushed acts) \<and>
                 grouped ys (drop (length g) (q' @ pushed acts)))"
            by simp
          then show ?thesis
          proof
            assume "fst (run acts (Inner [c]) q') = []"
            with Outer Step Cons Some show ?thesis
              by (simp add: split_beta grouped_Nil)
          next
            assume "\<exists>g ys. fst (run acts (Inner [c]) q') = concat ([c] @ g) # ys \<and>
                 prefix (map Some g) (q' @ pushed acts) \<and>
                 grouped ys (drop (length g) (q' @ pushed acts))"
            then obtain g ys where r: "fst (run acts (Inner [c]) q') = concat ([c] @ g) # ys"
              and p: "prefix (map Some g) (q' @ pushed acts)"
              and g: "grouped ys (drop (length g) (q' @ pushed acts))"
              by blast
            from g obtain gs where gs: "ys = map concat gs" "[] \<notin> set gs"
              "prefix (map Some (concat gs)) (drop (length g) (q' @ pushed acts))"
              unfolding grouped_def by blast
            from p obtain zs where zs: "q' @ pushed acts = map Some g @ zs"
              by (auto simp: prefix_def)
            with gs(3) have "prefix (map Some (concat gs)) zs"
              by simp
            then have "prefix (map Some (concat ((c # g) # gs))) (Some c # q' @ pushed acts)"
              using zs by simp
            moreover have "fst (run (Step # acts) Outer (Some c # q')) = map concat ((c # g) # gs)"
              using r gs(1) by (simp add: split_beta)
            moreover have "[] \<notin> set ((c # g) # gs)"
              using gs(2) by simp
            ultimately have "grouped (fst (run (Step # acts) Outer (Some c # q'))) (Some c # q' @ pushed acts)"
              unfolding grouped_def by blast
            with Outer Step Cons Some show ?thesis
              by simp
          qed
        qed
      qed
    next
      case (Inner data)
      show ?thesis
      proof (cases q)
        case Nil
        from Cons.IH [of Outer "[]"]
        have "grouped (fst (run acts Outer [])) (pushed acts)"
          by simp
        then have "\<exists>g ys. fst (run (Step # acts) (Inner data) []) = concat (data @ g) # ys \<and>
                 prefix (map Some g) ([] @ pushed (Step # acts)) \<and>
                 grouped ys (drop (length g) ([] @ pushed (Step # acts)))"
          by (intro exI [of _ "[]"] exI [of _ "fst (run acts Outer [])"]) (simp add: split_beta)
        with Inner Step Nil show ?thesis
          by simp
      next
        case (Cons x q')
        show ?thesis
        proof (cases x)
          case None
          with Inner Step Cons show ?thesis
            by (simp add: split_beta run_Finished)
        next
          case (Some c)
          from Cons.IH [of "Inner (data @ [c])" q']
          have "fst (run acts (Inner (data @ [c])) q') = [] \<or>
            (\<exists>g ys. fst (run acts (Inner (data @ [c])) q') = concat ((data @ [c]) @ g) # ys \<and>
                 prefix (map Some g) (q' @ pushed acts) \<and>
                 grouped ys (drop (length g) (q' @ pushed acts)))"
            by simp
          then show ?thesis
          proof
            assume "fst (run acts (Inner (data @ [c])) q') = []"
            with Inner Step Cons Some show ?thesis
              by (simp add: split_beta)
          next
            assume "\<exists>g ys. fst (run acts (Inner (data @ [c])) q') = concat ((data @ [c]) @ g) # ys \<and>
                 prefix (map Some g) (q' @ pushed acts) \<and>
                 grouped ys (drop (length g) (q' @ pushed acts))"
            then obtain g ys where
              r: "fst (run acts (Inner (data @ [c])) q') = concat ((data @ [c]) @ g) # ys"
              and p: "prefix (map Some g) (q' @ pushed acts)"
              and g: "grouped ys (drop (length g) (q' @ pushed acts))"
              by blast
            have "fst (run (Step # acts) (Inner data) (Some c # q')) = concat (data @ (c # g)) # ys \<and>
                 prefix (map Some (c # g)) ((Some c # q') @ pushed (Step # acts)) \<and>
                 grouped ys (drop (length (c # g)) ((Some c # q') @ pushed (Step # acts)))"
              using r p g by (simp add: split_beta)
            then have "\<exists>g ys. fst (run (Step # acts) (Inner data) (Some c # q')) = concat (data @ g) # ys \<and>
                 prefix (map Some g) ((Some c # q') @ pushed (Step # acts)) \<and>
                 grouped ys (drop (length g) ((Some c # q') @ pushed (Step # acts)))"
              by blast
            with Inner Step Cons Some show ?thesis
              by simp
          qed
        qed
      qed
    qed
  qed
qed

text \<open>
  Claim C10. Under every schedule, from every queue, the buffers that a new generator
  yields are the joins of groups of chunks, no group empty, and the chunks of the
  groups are, in order, the first elements of what the queue held and was pushed (so no
  group holds the marker, and each starts with the chunk of a blocking pop and goes on
  in dequeue order). A generator that has terminated yields nothing more, under any
  schedule, and every later pull ends with \<open>StopIteration\<close>.
\<close>

theorem generator_yields_nonempty_groups:
  "(\<exists>gs. fst (run acts Outer q) = map concat gs \<and> [] \<notin> set gs \<and>
         prefix (map Some (concat gs)) (q @ pushed acts)) \<and>
   run acts Finished q = ([], Finished, q @ pushed acts) \<and>
   generator_next Finished q = (StopIteration, Finished, q)"
  using run_groups [where f = Outer and acts = acts and q = q]
  by (simp add: grouped_def run_Finished generator_next_eqs)

section \<open>A capture session\<close>

lemma generator_step_no_marker:
  assumes "generator_step f q = (s, f', q')" "None \<notin> set q" "f \<noteq> Finished"
  shows "None \<notin> set q' \<and> f' \<noteq> Finished \<and> s \<noteq> StopIteration"
proof (cases f)
  case Outer
  with assms show ?thesis
    by (cases q) (auto split: option.splits)
next
  case (Inner data)
  with assms show ?thesis
    by (cases q) (auto split: option.splits)
next
  case Finished
  with assms show ?thesis by simp
qed

lemma consumer_step_Pulling:
  "generator_step f (buff (microphone_stream a)) = (s, f', q') \<Longrightarrow>
   consumer_step K (Pulling f) a =
     ((case s of Blocked \<Rightarrow> Pulling f' | Running \<Rightarrow> Pulling f'
       | StopIteration \<Rightarrow> Leaving (Return None) | Yield content \<Rightarrow> Accepting f' content),
      a\<lparr>microphone_stream := (microphone_stream a)\<lparr>buff := q'\<rparr>\<rparr>)"
  by (cases s) (simp_all add: Let_def)

lemma consumer_step_unmarked:
  assumes "None \<notin> set (buff (microphone_stream a))" "unmarked p"
  shows "None \<notin> set (buff (microphone_stream (snd (consumer_step K p a)))) \<and>
         unmarked (fst (consumer_step K p a))"
proof (cases p)
  case (Pulling f)
  obtain s f' q' where g: "generator_step f (buff (microphone_stream a)) = (s, f', q')"
    by (cases "generator_step f (buff (microphone_stream a))") blast
  from assms Pulling generator_step_no_marker [OF g]
  have "None \<notin> set q'" "f' \<noteq> Finished" "s \<noteq> StopIteration"
    by simp_all
  then show ?thesis
    unfolding Pulling consumer_step_Pulling [OF g] by (cases s) simp_all
next
  case (Accepting f content)
  with assms show ?thesis
    by (simp split: sum.splits prod.splits)
next
  case Resulting
  with assms show ?thesis
    by (simp split: sum.splits prod.splits)
next
  case (Leaving out)
  with assms show ?thesis
    by (simp add: exit_def)
next
  case (Left out)
  with assms show ?thesis by simp
qed

lemma consumer_step_stream:
  assumes "input_stream (microphone_stream a) = Some (stream_at p)" "settled p"
  shows "input_stream (microphone_stream (snd (consumer_step K p a))) =
           Some (stream_at (fst (consumer_step K p a))) \<and>
         settled (fst (consumer_step K p a))"
proof (cases p)
  case (Pulling f)
  obtain s f' q' where g: "generator_step f (buff (microphone_stream a)) = (s, f', q')"
    by (cases "generator_step f (buff (microphone_stream a))") blast
  from assms Pulling show ?thesis
    unfolding Pulling consumer_step_Pulling [OF g] by (cases s) simp_all
next
  case (Accepting f content)
  with assms show ?thesis
    by (simp split: sum.splits prod.splits)
next
  case Resulting
  with assms show ?thesis
    by (simp split: sum.splits prod.splits)
next
  case (Leaving out)
  with assms show ?thesis
    by (simp add: exit_def)
next
  case (Left out)
  with assms show ?thesis by simp
qed

lemma deliver_unmarked:
  "None \<notin> set (buff ms) \<Longrightarrow> None \<notin> set (buff (deliver ms indata status))"
  by (simp add: deliver_def callback_def put_def)

lemma deliver_stream: "input_stream (deliver ms indata status) = input_stream ms"
  by (simp add: deliver_def callback_def)

lemma with_input_stream_unmarked:
  "None \<notin> set (buff (microphone_stream a)) \<Longrightarrow> unmarked p \<Longrightarrow>
   None \<notin> set (buff (microphone_stream (snd (with_input_stream K p a es)))) \<and>
   unmarked (fst (with_input_stream K p a es))"
proof (induction es arbitrary: p a)
  case Nil
  then show ?case by simp
next
  case (Cons ev es)
  show ?case
  proof (cases ev)
    case (Block indata status)
    have "None \<notin> set (buff (microphone_stream
        (a\<lparr>microphone_stream := deliver (microphone_stream a) indata status\<rparr>)))"
      using Cons.prems(1) by (simp add: deliver_unmarked)
    from Cons.IH [OF this Cons.prems(2)] Block show ?thesis
      by simp
  next
    case Tick
    from consumer_step_unmarked [OF Cons.prems, of K]
    have "None \<notin> set (buff (microphone_stream (snd (consumer_step K p a))))"
      and "unmarked (fst (consumer_step K p a))"
      by simp_all
    from Cons.IH [OF this] Tick show ?thesis
      by (simp add: split_beta)
  qed
qed

lemma with_input_stream_stream:
  "input_stream (microphone_stream a) = Some (stream_at p) \<Longrightarrow> settled p \<Longrightarrow>
   input_stream (microphone_stream (snd (with_input_stream K p a es))) =
     Some (stream_at (fst (with_input_stream K p a es))) \<and>
   settled (fst (with_input_stream K p a es))"
proof (induction es arbitrary: p a)
  case Nil
  then show ?case by simp
next
  case (Cons ev es)
  show ?case
  proof (cases ev)
    case (Block indata status)
    have "input_stream (microphone_stream
        (a\<lparr>microphone_stream := deliver (microphone_stream a) indata status\<rparr>)) = Some (stream_at p)"
      using Cons.prems(1) by (simp add: deliver_stream)
    from Cons.IH [OF this Cons.prems(2)] Block show ?thesis
      by simp
  next
    case Tick
    from consumer_step_stream [OF Cons.prems, of K]
    have "input_stream (microphone_stream (snd (consumer_step K p a))) =
        Some (stream_at (fst (consumer_step K p a)))"
      and "settled (fst (consumer_step K p a))"
      by simp_all
    from Cons.IH [OF this] Tick show ?thesis
      by (simp add: split_beta)
  qed
qed

text \<open>
  Claim C2 says that the end-of-stream marker is pushed on every exit path of a capture
  session. Nothing in the program pushes it: the one writer of the queue is the
  callback, which puts byte strings. What holds instead: a session that starts with no
  marker in the queue ends with none in it, so it never ends because the generator is
  exhausted, and when it ends (by a returned text or by an exception) the input stream
  is closed, while a session still on its way has the stream started.
\<close>

theorem get_asr_result_pushes_no_marker:
  assumes "None \<notin> set (buff (microphone_stream vosk_asr))"
  shows "None \<notin> set (buff (microphone_stream (snd (get_asr_result K vosk_asr es)))) \<and>
         fst (get_asr_result K vosk_asr es) \<noteq> Return None \<and>
         input_stream (microphone_stream (snd (get_asr_result K vosk_asr es))) =
           Some (if fst (get_asr_result K vosk_asr es) = Pending then Started else Closed)"
proof -
  let ?a = "vosk_asr\<lparr>microphone_stream := enter (open_stream (microphone_stream vosk_asr))\<rparr>"
  let ?r = "with_input_stream K (Pulling Outer) ?a es"
  have "None \<notin> set (buff (microphone_stream ?a))"
    using assms by (simp add: enter_def open_stream_def)
  from with_input_stream_unmarked [OF this, of "Pulling Outer" K es]
  have m: "None \<notin> set (buff (microphone_stream (snd ?r)))" "unmarked (fst ?r)"
    by simp_all
  have "input_stream (microphone_stream ?a) = Some (stream_at (Pulling Outer))"
    by (simp add: enter_def)
  from with_input_stream_stream [OF this, of K es]
  have s: "input_stream (microphone_stream (snd ?r)) = Some (stream_at (fst ?r))" "settled (fst ?r)"
    by simp_all
  have g: "get_asr_result K vosk_asr es =
    ((case fst ?r of Left out \<Rightarrow> out | _ \<Rightarrow> Pending), snd ?r)"
    by (simp add: get_asr_result_def split_beta Let_def)
  show ?thesis
    unfolding g using m s by (cases "fst ?r") simp_all
qed

text \<open>
  A session in which the driver delivers one block, the recognizer accepts it, and a
  second block arrives while the recognizer works: the session returns the text with
  its space removed, the stream is closed, and the queue holds the second block and no
  marker. Of two blocking pops on it the first takes the block and the second suspends
  the caller.
\<close>

lemma session_accepting:
  "get_asr_result scripted (fresh ([Inr (Some [65, 32, 66])], []))
     [Block [1, 2] 0, Tick, Tick, Block [3] 0, Tick, Tick, Tick] =
     (Return (Some [65, 66]),
      \<lparr>microphone_stream =
         \<lparr>rate = 16000, chunk = 8000, buff = [Some [3]], input_stream = Some Closed\<rparr>,
       recognizer = ([], [])\<rparr>)"
  by (simp add: get_asr_result_def fresh_def scripted_def init_def enter_def exit_def
      open_stream_def callback_def deliver_def put_def split_def isspace_def)

theorem get_asr_result_leaves_no_marker:
  "fst (get_asr_result scripted (fresh ([Inr (Some [65, 32, 66])], []))
          [Block [1, 2] 0, Tick, Tick, Block [3] 0, Tick, Tick, Tick]) = Return (Some [65, 66]) \<and>
   buff (microphone_stream (snd (get_asr_result scripted (fresh ([Inr (Some [65, 32, 66])], []))
          [Block [1, 2] 0, Tick, Tick, Block [3] 0, Tick, Tick, Tick]))) = [Some [3]] \<and>
   None \<notin> set (buff (microphone_stream (snd (get_asr_result scripted
          (fresh ([Inr (Some [65, 32, 66])], []))
          [Block [1, 2] 0, Tick, Tick, Block [3] 0, Tick, Tick, Tick])))) \<and>
   input_stream (microphone_stream (snd (get_asr_result scripted
          (fresh ([Inr (Some [65, 32, 66])], []))
          [Block [1, 2] 0, Tick, Tick, Block [3] 0, Tick, Tick, Tick]))) = Some Closed \<and>
   gets 2 (buff (microphone_stream (snd (get_asr_result scripted
          (fresh ([Inr (Some [65, 32, 66])], []))
          [Block [1, 2] 0, Tick, Tick, Block [3] 0, Tick, Tick, Tick])))) = None"
  by (simp add: session_accepting numeral_2_eq_2)

text \<open>
  The theorem at a session of two pulls: the recognizer rejects the first buffer and
  accepts the second, and a third block arrives before the close.
\<close>

theorem get_asr_result_pushes_no_marker_witness:
  "None \<notin> set (buff (microphone_stream (fresh ([Inr None, Inr (Some [65])], [])))) \<and>
   None \<notin> set (buff (microphone_stream (snd (get_asr_result scripted
       (fresh ([Inr None, Inr (Some [65])], []))
       [Block [1] 0, Tick, Tick, Tick, Block [2] 1, Tick, Tick, Tick, Block [3] 0, Tick, Tick])))) \<and>
   fst (get_asr_result scripted (fresh ([Inr None, Inr (Some [65])], []))
       [Block [1] 0, Tick, Tick, Tick, Block [2] 1, Tick, Tick, Tick, Block [3] 0, Tick, Tick])
     \<noteq> Return None \<and>
   input_stream (microphone_stream (snd (get_asr_result scripted
       (fresh ([Inr None, Inr (Some [65])], []))
       [Block [1] 0, Tick, Tick, Tick, Block [2] 1, Tick, Tick, Tick, Block [3] 0, Tick, Tick]))) =
     Some (if fst (get_asr_result scripted (fresh ([Inr None, Inr (Some [65])], []))
                [Block [1] 0, Tick, Tick, Tick, Block [2] 1, Tick, Tick, Tick, Block [3] 0, Tick, Tick])
              = Pending
           then Started else Closed)"
proof -
  have h: "None \<notin> set (buff (microphone_stream (fresh ([Inr None, Inr (Some [65])], []))))"
    by (simp add: fresh_def init_def)
  from get_asr_result_pushes_no_marker [OF h, of scripted
      "[Block [1] 0, Tick, Tick, Tick, Block [2] 1, Tick, Tick, Tick, Block [3] 0, Tick, Tick]"] h
  show ?thesis by simp
qed

section \<open>The console loop\<close>

lemma main_loop_step:
  "get_asr_result K vosk_asr es = (out, vosk_asr') \<Longrightarrow>
   main_loop K recog_result vosk_asr (es # ess) =
     (case try_get_asr_result recog_result out of
        Inl e \<Rightarrow> ([Start_banner], e)
      | Inr None \<Rightarrow> ([Start_banner], Uncaught UnboundLocalError)
      | Inr (Some r) \<Rightarrow>
          if r = Some stop_phrase
          then ([Start_banner, Result_line r, Bye, End_banner], Exited)
          else (Start_banner # Result_line r # fst (main_loop K (Some r) vosk_asr' ess),
                snd (main_loop K (Some r) vosk_asr' ess)))"
  by (simp add: split_beta split: sum.splits option.splits)

declare main_loop.simps(2) [simp del]

lemma main_loop_returned:
  "get_asr_result K vosk_asr es = (Return t, vosk_asr') \<Longrightarrow>
   main_loop K recog_result vosk_asr (es # ess) =
     (if t = Some stop_phrase
      then ([Start_banner, Result_line t, Bye, End_banner], Exited)
      else (Start_banner # Result_line t # fst (main_loop K (Some t) vosk_asr' ess),
            snd (main_loop K (Some t) vosk_asr' ess)))"
  by (simp add: main_loop_step try_get_asr_result_def)

text \<open>
  Once \<^verbatim>\<open>recog_result\<close> is bound, an error of one of the three handled classes is
  passed over: the loop prints the value of the utterance before and goes on.
\<close>

lemma main_loop_swallowed:
  "get_asr_result K vosk_asr es = (Raise e, vosk_asr') \<Longrightarrow>
   e = UnknownValueError \<or> e = RequestError \<or> e = WaitTimeoutError \<Longrightarrow>
   main_loop K (Some r) vosk_asr (es # ess) =
     (if r = Some stop_phrase
      then ([Start_banner, Result_line r, Bye, End_banner], Exited)
      else (Start_banner # Result_line r # fst (main_loop K (Some r) vosk_asr' ess),
            snd (main_loop K (Some r) vosk_asr' ess)))"
  by (auto simp: main_loop_step try_get_asr_result_def)

text \<open>
  Claim C9. When every capture session returns a text (or \<^verbatim>\<open>None\<close>), the loop runs
  one session per iteration and prints the start banner and the returned value for
  each. It leaves the loop at the first value equal to the stop phrase, printing
  \<^verbatim>\<open>Bye\<close> and the end banner and running no further session; for every other value
  it goes on to the next utterance, and with no stop phrase among the values it is
  still running when the sessions are used up.
\<close>

theorem main_loop_exits_at_stop_phrase:
  assumes "sessions K vosk_asr ess = map Return ts"
  shows "main_loop K recog_result vosk_asr ess =
     (if Some stop_phrase \<in> set ts
      then (concat (map (\<lambda>t. [Start_banner, Result_line t])
                     (takeWhile (\<lambda>t. t \<noteq> Some stop_phrase) ts))
              @ [Start_banner, Result_line (Some stop_phrase), Bye, End_banner], Exited)
      else (concat (map (\<lambda>t. [Start_banner, Result_line t]) ts), Still_running))"
  using assms
proof (induction ess arbitrary: ts vosk_asr recog_result)
  case Nil
  then show ?case by simp
next
  case (Cons es ess)
  obtain out vosk_asr' where g: "get_asr_result K vosk_asr es = (out, vosk_asr')"
    by (cases "get_asr_result K vosk_asr es") blast
  with Cons.prems have s: "out # sessions K vosk_asr' ess = map Return ts"
    by simp
  then obtain t ts' where ts: "ts = t # ts'" "out = Return t" "sessions K vosk_asr' ess = map Return ts'"
    by (cases ts) auto
  note step = main_loop_returned [OF g [unfolded ts(2)], of recog_result ess]
  show ?case
  proof (cases "t = Some stop_phrase")
    case True
    with step ts(1) show ?thesis by simp
  next
    case False
    with step ts(1) Cons.IH [OF ts(3), of "Some t"] show ?thesis
      by simp
  qed
qed

text \<open>
  Three sessions whose texts are \<^verbatim>\<open>"A B"\<close>, the stop phrase and \<^verbatim>\<open>"C"\<close>; a block that
  arrives while the first text is recognized stays in the queue and is the first chunk
  of the second session. The loop prints \<^verbatim>\<open>AB\<close>, then the stop phrase, and exits;
  the third session is not run.
\<close>

lemma sessions_stop:
  "sessions scripted (fresh ([Inr (Some [65, 32, 66]), Inr (Some stop_phrase), Inr (Some [67])], []))
     [[Block [1, 2] 0, Tick, Tick, Block [9] 0, Tick, Tick, Tick],
      [Tick, Block [3] 0, Tick, Tick, Tick, Tick, Tick],
      [Block [5] 0, Tick, Tick, Tick, Tick, Tick]]
   = map Return [Some [65, 66], Some stop_phrase, Some [67]]"
  by (simp add: get_asr_result_def fresh_def scripted_def init_def enter_def exit_def
      open_stream_def callback_def deliver_def put_def split_def isspace_def stop_phrase_def)

theorem main_loop_exits_at_stop_phrase_witness:
  "sessions scripted (fresh ([Inr (Some [65, 32, 66]), Inr (Some stop_phrase), Inr (Some [67])], []))
     [[Block [1, 2] 0, Tick, Tick, Block [9] 0, Tick, Tick, Tick],
      [Tick, Block [3] 0, Tick, Tick, Tick, Tick, Tick],
      [Block [5] 0, Tick, Tick, Tick, Tick, Tick]]
   = map Return [Some [65, 66], Some stop_phrase, Some [67]] \<and>
   main scripted ([Inr (Some [65, 32, 66]), Inr (Some stop_phrase), Inr (Some [67])], []) 16000 8000
     [[Block [1, 2] 0, Tick, Tick, Block [9] 0, Tick, Tick, Tick],
      [Tick, Block [3] 0, Tick, Tick, Tick, Tick, Tick],
      [Block [5] 0, Tick, Tick, Tick, Tick, Tick]]
   = ([Start_banner, Result_line (Some [65, 66]),
       Start_banner, Result_line (Some stop_phrase), Bye, End_banner], Exited)"
  using main_loop_exits_at_stop_phrase [OF sessions_stop, of None] sessions_stop
  by (simp add: main_def fresh_def stop_phrase_def)

text \<open>
  Claim C4 says that an error of the recognition engine raised by \<^verbatim>\<open>get_asr_result\<close>
  is swallowed and the loop goes on. On the first utterance it is not so: the handler
  passes, \<^verbatim>\<open>recog_result\<close> has never been assigned, and the \<^verbatim>\<open>print\<close> of line 124
  raises \<^verbatim>\<open>UnboundLocalError\<close>, which ends the process after the start banner; no
  later utterance is run.
\<close>

theorem main_first_utterance_error_uncaught:
  assumes "fst (get_asr_result K vosk_asr es) = Raise e"
    and "e = UnknownValueError \<or> e = RequestError \<or> e = WaitTimeoutError"
  shows "main_loop K None vosk_asr (es # ess) = ([Start_banner], Uncaught UnboundLocalError)"
proof -
  obtain vosk_asr' where "get_asr_result K vosk_asr es = (Raise e, vosk_asr')"
    using assms(1) by (cases "get_asr_result K vosk_asr es") simp
  from main_loop_step [OF this, of None ess] assms(2) show ?thesis
    by (auto simp: try_get_asr_result_def)
qed

text \<open>
  The first session of the process, in which \<^verbatim>\<open>AcceptWaveform\<close> raises
  \<^verbatim>\<open>UnknownValueError\<close> on the first buffer; a second session is scheduled and never
  started.
\<close>

lemma session_raising:
  "get_asr_result scripted (fresh ([Inl UnknownValueError], []))
     [Block [1, 2] 0, Tick, Tick, Tick, Tick] =
     (Raise UnknownValueError,
      \<lparr>microphone_stream = \<lparr>rate = 16000, chunk = 8000, buff = [], input_stream = Some Closed\<rparr>,
       recognizer = ([Inl UnknownValueError], [])\<rparr>)"
  by (simp add: get_asr_result_def fresh_def scripted_def init_def enter_def exit_def
      open_stream_def callback_def deliver_def put_def split_def isspace_def)

theorem main_first_utterance_error_uncaught_witness:
  "fst (get_asr_result scripted (fresh ([Inl UnknownValueError], []))
     [Block [1, 2] 0, Tick, Tick, Tick, Tick])
     = Raise UnknownValueError \<and>
   main scripted ([Inl UnknownValueError], []) 16000 8000
     [[Block [1, 2] 0, Tick, Tick, Tick, Tick], [Block [3] 0, Tick, Tick, Tick, Tick]]
     = ([Start_banner], Uncaught UnboundLocalError)"
proof -
  have h: "fst (get_asr_result scripted (fresh ([Inl UnknownValueError], []))
      [Block [1, 2] 0, Tick, Tick, Tick, Tick]) = Raise UnknownValueError"
    by (simp add: session_raising)
  from main_first_utterance_error_uncaught [OF h, of "[[Block [3] 0, Tick, Tick, Tick, Tick]]"] h
  show ?thesis
    by (simp add: main_def fresh_def)
qed

end
